theory Spec2Isabelle
  imports Main "HOL-Library.Char_ord" "HOL-Library.List_Lexorder" "HOL-Library.Multiset"
begin

section \<open>Values of the host language\<close>

text \<open>
  The library (\<^verbatim>\<open>src/flow.ts\<close>) inspects its arguments at run time: whether a value has
  \<^verbatim>\<open>Symbol.iterator\<close> or \<^verbatim>\<open>Symbol.asyncIterator\<close>, whether it is \<^verbatim>\<open>== null\<close>, whether it is
  truthy. The values it handles are therefore one datatype. Numbers are the integral
  ones (no fractions, no NaN). \<open>JArr\<close> is an array; passed as the argument to iterate, a
  set or a synchronous iterator is the \<open>JArr\<close> of the elements it yields, in order. A
  promise is already settled, either fulfilled (\<open>JPromise\<close>) or rejected (\<open>JRejected\<close>);
  \<open>JAsyncIter\<close> is an asynchronous generator with the items it yields. Equality of
  values is structural: the identity of two distinct arrays with equal contents is not
  modelled.
\<close>

datatype jsval =
    JUndefined
  | JNull
  | JBool bool
  | JNum int
  | JStr string
  | JArr "jsval list"
  | JPromise jsval
  | JRejected jsval
  | JAsyncIter "jsval list"

text \<open>
  The primitive values. \<^verbatim>\<open>===\<close>, \<^verbatim>\<open>!==\<close> and the key comparison of a \<^verbatim>\<open>Map\<close> compare two
  primitives by value, which is the equality of the model, and two objects (arrays,
  promises, generators) by identity, which the model does not have. Where keys are
  compared, the statements are about primitive keys.
\<close>

fun primitive :: "jsval \<Rightarrow> bool" where
  "primitive (JArr xs) = False"
| "primitive (JPromise v) = False"
| "primitive (JRejected v) = False"
| "primitive (JAsyncIter xs) = False"
| "primitive v = True"

text \<open>\<^verbatim>\<open>typeof v?.[Symbol.iterator] === 'function'\<close>: arrays and strings.\<close>

fun hasIterator :: "jsval \<Rightarrow> bool" where
  "hasIterator (JArr xs) = True"
| "hasIterator (JStr s) = True"
| "hasIterator v = False"

text \<open>\<^verbatim>\<open>v[Symbol.iterator]()\<close>, as the list of values the iterator yields. A string yields
  its characters, each a string of length one.\<close>

fun iterator :: "jsval \<Rightarrow> jsval list" where
  "iterator (JArr xs) = xs"
| "iterator (JStr s) = map (\<lambda>c. JStr [c]) s"
| "iterator v = []"

text \<open>\<^verbatim>\<open>typeof v?.[Symbol.asyncIterator] === 'function'\<close> and \<^verbatim>\<open>v[Symbol.asyncIterator]()\<close>.\<close>

fun hasAsyncIterator :: "jsval \<Rightarrow> bool" where
  "hasAsyncIterator (JAsyncIter xs) = True"
| "hasAsyncIterator v = False"

fun asyncIterator :: "jsval \<Rightarrow> jsval list" where
  "asyncIterator (JAsyncIter xs) = xs"
| "asyncIterator v = []"

text \<open>\<^verbatim>\<open>v == null\<close> holds of \<^verbatim>\<open>null\<close> and \<^verbatim>\<open>undefined\<close> only.\<close>

definition looseNull :: "jsval \<Rightarrow> bool" where
  "looseNull v = (v = JNull \<or> v = JUndefined)"

text \<open>Truthiness, as \<^verbatim>\<open>if (v)\<close> and \<^verbatim>\<open>v && ...\<close> test it.\<close>

fun truthy :: "jsval \<Rightarrow> bool" where
  "truthy JUndefined = False"
| "truthy JNull = False"
| "truthy (JBool b) = b"
| "truthy (JNum n) = (n \<noteq> 0)"
| "truthy (JStr s) = (s \<noteq> [])"
| "truthy v = True"

text \<open>\<^verbatim>\<open>const [valueOrValues, ...otherValues] = arguments\<close>: the first argument is
  \<^verbatim>\<open>undefined\<close> when there is none.\<close>

definition arg0 :: "jsval list \<Rightarrow> jsval" where
  "arg0 args = (case args of [] \<Rightarrow> JUndefined | v # _ \<Rightarrow> v)"

text \<open>What a caller sees thrown. \<open>EmptyValueError\<close> is the name the specification gives;
  no line of the source constructs it.\<close>

datatype error = EmptyValueError | Thrown jsval

section \<open>Item\<close>

record item =
  item_value :: jsval

definition Item_of :: "jsval \<Rightarrow> item" where
  "Item_of v = \<lparr>item_value = v\<rparr>"

definition Item_empty :: item where
  "Item_empty = \<lparr>item_value = JUndefined\<rparr>"

definition Item_isEmpty :: "item \<Rightarrow> bool" where
  "Item_isEmpty i = looseNull (item_value i)"

definition Item_isPresent :: "item \<Rightarrow> bool" where
  "Item_isPresent i = (\<not> Item_isEmpty i)"

text \<open>\<^verbatim>\<open>get(): T { return this.value!; }\<close>: the \<^verbatim>\<open>!\<close> is erased at compile time, so the
  method returns the stored value whatever it is and has no failing branch.\<close>

definition Item_get :: "item \<Rightarrow> error + jsval" where
  "Item_get i = Inr (item_value i)"

definition Item_orElseThrow :: "jsval \<Rightarrow> item \<Rightarrow> error + jsval" where
  "Item_orElseThrow err i = (if Item_isEmpty i then Inl (Thrown err) else Inr (item_value i))"

section \<open>Flow\<close>

text \<open>
  A flow holds the list of its sources, each an iterator obtained when the flow was
  built. An iterator is modelled by the list of the values it has still to yield, and
  a drain of the flow by the values pulled from the sources, in order. What becomes of
  a source after a loop is left early is not modelled: the iterator of an array keeps
  its remaining values, a generator is closed by the \<^verbatim>\<open>return()\<close> that the early exit
  sends through \<^verbatim>\<open>yield*\<close>. The runs below therefore say which values a call pulls, and
  nothing about a later drain of the same flow.
\<close>

record flow =
  iterators :: "jsval list list"

function Flow_of :: "jsval list \<Rightarrow> flow" where
  "Flow_of args =
     (let valueOrValues = arg0 args; otherValues = drop 1 args in
      if otherValues = [] \<and> hasIterator valueOrValues
      then \<lparr>iterators = [iterator valueOrValues]\<rparr>
      else Flow_of [JArr (valueOrValues # otherValues)])"
  by pat_completeness auto
termination
  by (relation "measure (\<lambda>args. if drop 1 args = [] \<and> hasIterator (arg0 args) then 0 else 1)")
     (auto simp: arg0_def)

declare Flow_of.simps [simp del]

definition Flow_empty :: flow where
  "Flow_empty = \<lparr>iterators = []\<rparr>"

text \<open>\<^verbatim>\<open>[Symbol.iterator]()\<close>: the sources one after the other.\<close>

definition Flow_iterate :: "flow \<Rightarrow> jsval list" where
  "Flow_iterate f = concat (iterators f)"

definition Flow_append :: "jsval list \<Rightarrow> flow \<Rightarrow> flow" where
  "Flow_append args f =
     (let valueOrValues = arg0 args; otherValues = drop 1 args in
      if otherValues = [] \<and> hasIterator valueOrValues
      then \<lparr>iterators = iterators f @ [iterator valueOrValues]\<rparr>
      else \<lparr>iterators = iterators f @ [iterator (JArr (valueOrValues # otherValues))]\<rparr>)"

definition Flow_prepend :: "jsval list \<Rightarrow> flow \<Rightarrow> flow" where
  "Flow_prepend args f =
     (let valueOrValues = arg0 args; otherValues = drop 1 args in
      if otherValues = [] \<and> hasIterator valueOrValues
      then \<lparr>iterators = iterator valueOrValues # iterators f\<rparr>
      else \<lparr>iterators = iterator (JArr (valueOrValues # otherValues)) # iterators f\<rparr>)"

definition Flow_toArray :: "flow \<Rightarrow> jsval list" where
  "Flow_toArray f = Flow_iterate f"

definition Flow_count :: "flow \<Rightarrow> nat" where
  "Flow_count f = length (Flow_iterate f)"

text \<open>One pull on the composed iterator: the next value, and what the iterator has still
  to yield within the same drain.\<close>

fun next_value :: "'a list list \<Rightarrow> ('a \<times> 'a list list) option" where
  "next_value [] = None"
| "next_value ([] # its) = next_value its"
| "next_value ((v # vs) # its) = Some (v, vs # its)"

text \<open>\<^verbatim>\<open>findFirst\<close> returns from inside the loop at its first round. The run also gives the
  values the call pulled from the composed iterator.\<close>

definition Flow_findFirst_run :: "flow \<Rightarrow> item \<times> jsval list" where
  "Flow_findFirst_run f =
     (case next_value (iterators f) of
        None \<Rightarrow> (Item_empty, [])
      | Some (v, rest) \<Rightarrow> (Item_of v, [v]))"

definition Flow_findFirst :: "flow \<Rightarrow> item" where
  "Flow_findFirst f = fst (Flow_findFirst_run f)"

definition Flow_findFirst_pulled :: "flow \<Rightarrow> jsval list" where
  "Flow_findFirst_pulled f = snd (Flow_findFirst_run f)"

definition Item_flow :: "item \<Rightarrow> flow" where
  "Item_flow i = (if Item_isEmpty i then Flow_empty else Flow_of [item_value i])"

text \<open>
  \<^verbatim>\<open>some\<close> and \<^verbatim>\<open>every\<close>: a loop over the composed iterator with a running index, left
  by \<^verbatim>\<open>return\<close> inside the loop. Besides the result, a run gives the calls it made to
  the predicate, in order (the instrumented counter of the specification's example),
  and the values it pulled from the composed iterator, in order. Each round pulls one
  value, then calls the predicate on it.
\<close>

function Flow_some_run ::
  "(jsval \<Rightarrow> nat \<Rightarrow> bool) \<Rightarrow> nat \<Rightarrow> jsval list list \<Rightarrow>
   bool \<times> (jsval \<times> nat) list \<times> jsval list" where
  "Flow_some_run predicate index [] = (False, [], [])"
| "Flow_some_run predicate index ([] # its) = Flow_some_run predicate index its"
| "Flow_some_run predicate index ((v # vs) # its) =
     (if predicate v index then (True, [(v, index)], [v])
      else (case Flow_some_run predicate (Suc index) (vs # its) of
              (result, calls, pulled) \<Rightarrow> (result, (v, index) # calls, v # pulled)))"
  by pat_completeness auto
termination
  by (relation "measure (\<lambda>(p, i, its). length (concat its) + length its)") auto

function Flow_every_run ::
  "(jsval \<Rightarrow> nat \<Rightarrow> bool) \<Rightarrow> nat \<Rightarrow> jsval list list \<Rightarrow>
   bool \<times> (jsval \<times> nat) list \<times> jsval list" where
  "Flow_every_run predicate index [] = (True, [], [])"
| "Flow_every_run predicate index ([] # its) = Flow_every_run predicate index its"
| "Flow_every_run predicate index ((v # vs) # its) =
     (if \<not> predicate v index then (False, [(v, index)], [v])
      else (case Flow_every_run predicate (Suc index) (vs # its) of
              (result, calls, pulled) \<Rightarrow> (result, (v, index) # calls, v # pulled)))"
  by pat_completeness auto
termination
  by (relation "measure (\<lambda>(p, i, its). length (concat its) + length its)") auto

definition Flow_some :: "(jsval \<Rightarrow> nat \<Rightarrow> bool) \<Rightarrow> flow \<Rightarrow> bool" where
  "Flow_some predicate f = fst (Flow_some_run predicate 0 (iterators f))"

definition Flow_some_calls :: "(jsval \<Rightarrow> nat \<Rightarrow> bool) \<Rightarrow> flow \<Rightarrow> (jsval \<times> nat) list" where
  "Flow_some_calls predicate f = fst (snd (Flow_some_run predicate 0 (iterators f)))"

definition Flow_some_pulled :: "(jsval \<Rightarrow> nat \<Rightarrow> bool) \<Rightarrow> flow \<Rightarrow> jsval list" where
  "Flow_some_pulled predicate f = snd (snd (Flow_some_run predicate 0 (iterators f)))"

definition Flow_every :: "(jsval \<Rightarrow> nat \<Rightarrow> bool) \<Rightarrow> flow \<Rightarrow> bool" where
  "Flow_every predicate f = fst (Flow_every_run predicate 0 (iterators f))"

definition Flow_every_calls :: "(jsval \<Rightarrow> nat \<Rightarrow> bool) \<Rightarrow> flow \<Rightarrow> (jsval \<times> nat) list" where
  "Flow_every_calls predicate f = fst (snd (Flow_every_run predicate 0 (iterators f)))"

definition Flow_every_pulled :: "(jsval \<Rightarrow> nat \<Rightarrow> bool) \<Rightarrow> flow \<Rightarrow> jsval list" where
  "Flow_every_pulled predicate f = snd (snd (Flow_every_run predicate 0 (iterators f)))"

definition Flow_none :: "(jsval \<Rightarrow> nat \<Rightarrow> bool) \<Rightarrow> flow \<Rightarrow> bool" where
  "Flow_none predicate f = (\<not> Flow_some predicate f)"

text \<open>The values of a drain, each with its position counted from \<open>i\<close>.\<close>

primrec indexed_from :: "nat \<Rightarrow> 'a list \<Rightarrow> ('a \<times> nat) list" where
  "indexed_from i [] = []"
| "indexed_from i (x # xs) = (x, i) # indexed_from (Suc i) xs"

text \<open>The predicate \<^verbatim>\<open>x => x > 1\<close> of the specification's example.\<close>

definition greater_than_one :: "jsval \<Rightarrow> nat \<Rightarrow> bool" where
  "greater_than_one x index = (case x of JNum n \<Rightarrow> n > 1 | _ \<Rightarrow> False)"

section \<open>EntryFlow\<close>

text \<open>
  An entry \<^verbatim>\<open>[K, V]\<close> is a pair. The argument of \<^verbatim>\<open>of\<close>, \<^verbatim>\<open>append\<close> and \<^verbatim>\<open>prepend\<close> is one of
  the three shapes the overloads accept, each with the entries it holds: an iterator
  of pairs and a \<^verbatim>\<open>Map\<close> have \<^verbatim>\<open>Symbol.iterator\<close>, a plain record has not and is read
  with \<^verbatim>\<open>Object.entries\<close>.
\<close>

datatype ('k, 'v) entries =
    PairIterator "('k \<times> 'v) list"
  | AssocMap "('k \<times> 'v) list"
  | PlainRecord "('k \<times> 'v) list"

fun entries_hasIterator :: "('k, 'v) entries \<Rightarrow> bool" where
  "entries_hasIterator (PairIterator es) = True"
| "entries_hasIterator (AssocMap es) = True"
| "entries_hasIterator (PlainRecord es) = False"

fun entries_iterator :: "('k, 'v) entries \<Rightarrow> ('k \<times> 'v) list" where
  "entries_iterator (PairIterator es) = es"
| "entries_iterator (AssocMap es) = es"
| "entries_iterator (PlainRecord es) = []"

fun Object_entries :: "('k, 'v) entries \<Rightarrow> ('k \<times> 'v) list" where
  "Object_entries (PlainRecord es) = es"
| "Object_entries (AssocMap es) = []"
| "Object_entries (PairIterator es) = []"

record ('k, 'v) entryflow =
  entry_iterators :: "('k \<times> 'v) list list"

definition EntryFlow_of :: "('k, 'v) entries \<Rightarrow> ('k, 'v) entryflow" where
  "EntryFlow_of valueOrValues =
     (if entries_hasIterator valueOrValues
      then \<lparr>entry_iterators = [entries_iterator valueOrValues]\<rparr>
      else \<lparr>entry_iterators = [Object_entries valueOrValues]\<rparr>)"

definition EntryFlow_empty :: "('k, 'v) entryflow" where
  "EntryFlow_empty = \<lparr>entry_iterators = []\<rparr>"

definition EntryFlow_iterate :: "('k, 'v) entryflow \<Rightarrow> ('k \<times> 'v) list" where
  "EntryFlow_iterate ef = concat (entry_iterators ef)"

definition EntryFlow_append :: "('k, 'v) entries \<Rightarrow> ('k, 'v) entryflow \<Rightarrow> ('k, 'v) entryflow" where
  "EntryFlow_append valueOrValues ef =
     (if entries_hasIterator valueOrValues
      then \<lparr>entry_iterators = entries_iterator valueOrValues # entry_iterators ef\<rparr>
      else \<lparr>entry_iterators = Object_entries valueOrValues # entry_iterators ef\<rparr>)"

definition EntryFlow_prepend :: "('k, 'v) entries \<Rightarrow> ('k, 'v) entryflow \<Rightarrow> ('k, 'v) entryflow" where
  "EntryFlow_prepend valueOrValues ef =
     (if entries_hasIterator valueOrValues
      then \<lparr>entry_iterators = entries_iterator valueOrValues # entry_iterators ef\<rparr>
      else \<lparr>entry_iterators = entry_iterators ef @ [Object_entries valueOrValues]\<rparr>)"

definition EntryFlow_toArray :: "('k, 'v) entryflow \<Rightarrow> ('k \<times> 'v) list" where
  "EntryFlow_toArray ef = EntryFlow_iterate ef"








text \<open>
  \<^verbatim>\<open>collapseKeys\<close>: \<^verbatim>\<open>collapseKey\<close> starts \<^verbatim>\<open>undefined\<close> and is tested for truthiness, both
  in the loop (\<^verbatim>\<open>collapseKey && collapseKey !== key\<close>) and after it (\<^verbatim>\<open>if (collapseKey)\<close>).
  After a yield \<^verbatim>\<open>collapseValues\<close> is a fresh array, so a yielded array is never pushed
  to again. \<^verbatim>\<open>collapseKey !== key\<close> is the inequality of the model on primitive keys;
  on keys that are objects the code compares identities, which the model does not do.
\<close>

fun collapseKeys_loop :: "jsval \<Rightarrow> 'v list \<Rightarrow> (jsval \<times> 'v) list \<Rightarrow> (jsval \<times> 'v list) list" where
  "collapseKeys_loop collapseKey collapseValues [] =
     (if truthy collapseKey then [(collapseKey, collapseValues)] else [])"
| "collapseKeys_loop collapseKey collapseValues ((key, value) # rest) =
     (if truthy collapseKey \<and> collapseKey \<noteq> key
      then (collapseKey, collapseValues) # collapseKeys_loop key ([] @ [value]) rest
      else collapseKeys_loop key (collapseValues @ [value]) rest)"

definition EntryFlow_collapseKeys :: "(jsval, 'v) entryflow \<Rightarrow> (jsval, 'v list) entryflow" where
  "EntryFlow_collapseKeys ef =
     EntryFlow_of (PairIterator (collapseKeys_loop JUndefined [] (EntryFlow_iterate ef)))"

text \<open>A \<^verbatim>\<open>Map\<close> keeps its keys in the order of their first insertion. It compares keys
  by SameValueZero: primitive keys by value, as the model does, and keys that are
  objects by identity, which the model does not do. The key type \<open>'k\<close> stands for a type
  of primitive keys.\<close>

definition Map_has :: "('k \<times> 'w) list \<Rightarrow> 'k \<Rightarrow> bool" where
  "Map_has m key = (key \<in> set (map fst m))"

definition Map_set :: "('k \<times> 'w) list \<Rightarrow> 'k \<Rightarrow> 'w \<Rightarrow> ('k \<times> 'w) list" where
  "Map_set m key w =
     (if Map_has m key then map (\<lambda>(k, old). if k = key then (k, w) else (k, old)) m
      else m @ [(key, w)])"

text \<open>\<^verbatim>\<open>map.get(key)!.push(value)\<close>: the array stored under the key grows in place.\<close>

definition Map_push :: "('k \<times> 'v list) list \<Rightarrow> 'k \<Rightarrow> 'v \<Rightarrow> ('k \<times> 'v list) list" where
  "Map_push m key value = map (\<lambda>(k, vs). if k = key then (k, vs @ [value]) else (k, vs)) m"

fun grouping_loop :: "('k \<times> 'v list) list \<Rightarrow> ('k \<times> 'v) list \<Rightarrow> ('k \<times> 'v list) list" where
  "grouping_loop m [] = m"
| "grouping_loop m ((key, value) # rest) =
     grouping_loop (Map_push (if \<not> Map_has m key then Map_set m key [] else m) key value) rest"

definition EntryFlow_grouping :: "('k, 'v) entryflow \<Rightarrow> ('k, 'v list) entryflow" where
  "EntryFlow_grouping ef =
     EntryFlow_of (PairIterator (grouping_loop [] (EntryFlow_iterate ef)))"

text \<open>
  What the specification says the two operations compute, in its words.
  \<^verbatim>\<open>collapseKeys\<close>: each maximal run of consecutive equal-key pairs becomes one pair whose
  value is the ordered list of the run's values. \<^verbatim>\<open>grouping\<close>: one pair per distinct
  key, in first-seen key order, whose value is the ordered list of all values seen for
  that key.
\<close>

function maximal_runs :: "('k \<times> 'v) list \<Rightarrow> ('k \<times> 'v list) list" where
  "maximal_runs [] = []"
| "maximal_runs ((k, v) # rest) =
     (k, v # map snd (takeWhile (\<lambda>e. fst e = k) rest)) #
     maximal_runs (dropWhile (\<lambda>e. fst e = k) rest)"
  by pat_completeness auto
termination
  by (relation "measure length") (auto simp: less_Suc_eq_le length_dropWhile_le)

function first_seen :: "'k list \<Rightarrow> 'k list" where
  "first_seen [] = []"
| "first_seen (k # ks) = k # first_seen (filter (\<lambda>x. x \<noteq> k) ks)"
  by pat_completeness auto
termination
  by (relation "measure length") (auto simp: less_Suc_eq_le)

definition values_of :: "'k \<Rightarrow> ('k \<times> 'v) list \<Rightarrow> 'v list" where
  "values_of k xs = map snd (filter (\<lambda>e. fst e = k) xs)"

definition groups_by_key :: "('k \<times> 'v) list \<Rightarrow> ('k \<times> 'v list) list" where
  "groups_by_key xs = map (\<lambda>k. (k, values_of k xs)) (first_seen (map fst xs))"

section \<open>PromiseFlow\<close>

text \<open>
  A source of a promise flow is an asynchronous iterator, modelled by the items it has
  still to yield. A synchronous iterable of promises is wrapped in
  \<^verbatim>\<open>async function* (iterable) { yield* iterable; }\<close>, which awaits each item when it is
  pulled; the model keeps the items and awaits them in the drain. A rejected promise
  makes the drain fail with its reason.
\<close>

record promiseflow =
  promise_iterators :: "jsval list list"

function PromiseFlow_of :: "jsval list \<Rightarrow> promiseflow" where
  "PromiseFlow_of args =
     (let valueOrValues = arg0 args; otherValues = drop 1 args in
      if hasAsyncIterator valueOrValues
      then \<lparr>promise_iterators = [asyncIterator valueOrValues]\<rparr>
      else if otherValues = [] \<and> hasIterator valueOrValues
      then \<lparr>promise_iterators = [iterator valueOrValues]\<rparr>
      else PromiseFlow_of [JArr (valueOrValues # otherValues)])"
  by pat_completeness auto
termination
  by (relation "measure (\<lambda>args. if hasAsyncIterator (arg0 args) \<or>
        drop 1 args = [] \<and> hasIterator (arg0 args) then 0 else 1)")
     (auto simp: arg0_def)

declare PromiseFlow_of.simps [simp del]

definition PromiseFlow_empty :: promiseflow where
  "PromiseFlow_empty = \<lparr>promise_iterators = []\<rparr>"

definition PromiseFlow_iterate :: "promiseflow \<Rightarrow> jsval list" where
  "PromiseFlow_iterate pf = concat (promise_iterators pf)"

definition PromiseFlow_append :: "jsval list \<Rightarrow> promiseflow \<Rightarrow> promiseflow" where
  "PromiseFlow_append args pf =
     (let valueOrValues = arg0 args; otherValues = drop 1 args in
      if hasAsyncIterator valueOrValues
      then \<lparr>promise_iterators = asyncIterator valueOrValues # promise_iterators pf\<rparr>
      else if otherValues = [] \<and> hasIterator valueOrValues
      then \<lparr>promise_iterators = iterator valueOrValues # promise_iterators pf\<rparr>
      else \<lparr>promise_iterators =
              iterator (JArr (valueOrValues # otherValues)) # promise_iterators pf\<rparr>)"

definition PromiseFlow_prepend :: "jsval list \<Rightarrow> promiseflow \<Rightarrow> promiseflow" where
  "PromiseFlow_prepend args pf =
     (let valueOrValues = arg0 args; otherValues = drop 1 args in
      if hasAsyncIterator valueOrValues
      then \<lparr>promise_iterators = promise_iterators pf @ [asyncIterator valueOrValues]\<rparr>
      else if otherValues = [] \<and> hasIterator valueOrValues
      then \<lparr>promise_iterators = promise_iterators pf @ [iterator valueOrValues]\<rparr>
      else \<lparr>promise_iterators =
              promise_iterators pf @ [iterator (JArr (valueOrValues # otherValues))]\<rparr>)"

fun await_value :: "jsval \<Rightarrow> error + jsval" where
  "await_value (JPromise v) = Inr v"
| "await_value (JRejected e) = Inl (Thrown e)"
| "await_value v = Inr v"

fun toArray_loop :: "jsval list \<Rightarrow> jsval list \<Rightarrow> error + jsval list" where
  "toArray_loop array [] = Inr array"
| "toArray_loop array (item # rest) =
     (case await_value item of
        Inl e \<Rightarrow> Inl e
      | Inr v \<Rightarrow> toArray_loop (array @ [v]) rest)"

definition PromiseFlow_toArray :: "promiseflow \<Rightarrow> error + jsval list" where
  "PromiseFlow_toArray pf = toArray_loop [] (PromiseFlow_iterate pf)"

section \<open>Sorting\<close>

text \<open>
  Modelled from the spec: \<^verbatim>\<open>sort\<close> and \<^verbatim>\<open>sortBy\<close> hand the drained array to the host's
  \<^verbatim>\<open>Array.prototype.sort\<close>, which is not in the repository's sources. The specification
  says of it that it is a stable sort; what the host does beyond that, the rendering
  of values as strings and the comparison of two elements, is taken from ECMA-262.
\<close>

text \<open>The decimal digits of an integer, with its sign.\<close>

fun digits :: "nat \<Rightarrow> string" where
  "digits n =
     (if n < 10 then [''0123456789'' ! n]
      else digits (n div 10) @ [''0123456789'' ! (n mod 10)])"

declare digits.simps [simp del]

definition decimal :: "int \<Rightarrow> string" where
  "decimal n = (if n < 0 then CHR ''-'' # digits (nat (- n)) else digits (nat n))"

text \<open>
  Modelled from the spec: the host's rendering of a number, \<^verbatim>\<open>Number::toString\<close>. A
  number is a double. On the safe integers, those of magnitude at most \<open>2\<^sup>5\<^sup>3 - 1\<close>, the
  rendering is the exact decimal digits. Beyond them it is not: \<open>10\<^sup>2\<^sup>1\<close> is rendered
  \<^verbatim>\<open>1e+21\<close>, \<open>2\<^sup>6\<^sup>0\<close> is rendered \<^verbatim>\<open>1152921504606847000\<close>, and most integers there are no
  doubles at all. The model does not compute that part: it takes the host's rendering
  of the numbers beyond the safe integers as the parameter \<open>host\<close>, and every
  statement below holds whatever that rendering is.
\<close>

definition Number_isSafeInteger :: "int \<Rightarrow> bool" where
  "Number_isSafeInteger n = (- 9007199254740991 \<le> n \<and> n \<le> 9007199254740991)"

definition Number_toString :: "(int \<Rightarrow> string) \<Rightarrow> int \<Rightarrow> string" where
  "Number_toString host n = (if Number_isSafeInteger n then decimal n else host n)"

text \<open>
  Modelled from the spec: the host's \<^verbatim>\<open>ToString\<close>, as the default sort applies it. An
  array is rendered as its elements joined by commas, \<^verbatim>\<open>null\<close> and \<^verbatim>\<open>undefined\<close> elements
  as the empty string.
\<close>

fun ToString :: "(int \<Rightarrow> string) \<Rightarrow> jsval \<Rightarrow> string"
  and Array_join :: "(int \<Rightarrow> string) \<Rightarrow> jsval list \<Rightarrow> string" where
  "ToString host JUndefined = ''undefined''"
| "ToString host JNull = ''null''"
| "ToString host (JBool b) = (if b then ''true'' else ''false'')"
| "ToString host (JNum n) = Number_toString host n"
| "ToString host (JStr s) = s"
| "ToString host (JArr xs) = Array_join host xs"
| "ToString host (JPromise v) = ''[object Promise]''"
| "ToString host (JRejected v) = ''[object Promise]''"
| "ToString host (JAsyncIter xs) = ''[object AsyncGenerator]''"
| "Array_join host [] = []"
| "Array_join host (x # xs) =
     (if x = JUndefined \<or> x = JNull then [] else ToString host x) @
     (if xs = [] then [] else CHR '','' # Array_join host xs)"

text \<open>
  Modelled from the spec: the host's \<^verbatim>\<open>Array.prototype.sort\<close>. Two elements are ordered
  by SortCompare, which puts \<^verbatim>\<open>undefined\<close> after every other value, calls the comparator
  when there is one, and otherwise compares the string renderings by code units; the
  sort is stable; and for a consistent comparator the result is the one arrangement
  that is sorted and keeps ties in their original order. The insertion sort below
  computes that arrangement, so on consistent comparators it stands for any conforming
  host. A comparator returns an integral number.
\<close>

definition SortCompare ::
  "(int \<Rightarrow> string) \<Rightarrow> (jsval \<Rightarrow> jsval \<Rightarrow> int) option \<Rightarrow> jsval \<Rightarrow> jsval \<Rightarrow> int" where
  "SortCompare host comparefn x y =
     (if x = JUndefined \<and> y = JUndefined then 0
      else if x = JUndefined then 1
      else if y = JUndefined then - 1
      else (case comparefn of
              Some c \<Rightarrow> c x y
            | None \<Rightarrow>
                (let xString = ToString host x; yString = ToString host y in
                 if xString < yString then - 1
                 else if yString < xString then 1
                 else 0)))"

fun insert_sorted :: "('a \<Rightarrow> 'a \<Rightarrow> int) \<Rightarrow> 'a \<Rightarrow> 'a list \<Rightarrow> 'a list" where
  "insert_sorted cmp x [] = [x]"
| "insert_sorted cmp x (y # ys) =
     (if cmp x y \<le> 0 then x # y # ys else y # insert_sorted cmp x ys)"

definition sort_with :: "('a \<Rightarrow> 'a \<Rightarrow> int) \<Rightarrow> 'a list \<Rightarrow> 'a list" where
  "sort_with cmp xs = foldr (insert_sorted cmp) xs []"

definition Array_sort ::
  "(int \<Rightarrow> string) \<Rightarrow> (jsval \<Rightarrow> jsval \<Rightarrow> int) option \<Rightarrow> jsval list \<Rightarrow> jsval list" where
  "Array_sort host comparefn xs = sort_with (SortCompare host comparefn) xs"

text \<open>\<^verbatim>\<open>Flow.of(Array.from(this).sort(comparator))\<close>, and the same with the comparator of
  \<^verbatim>\<open>sortBy\<close>, \<^verbatim>\<open>(x, y) => comparator(extractor(x), extractor(y))\<close>. The first argument is
  the parameter of the host's rendering, passed on to the host's sort.\<close>

definition Array_from :: "flow \<Rightarrow> jsval list" where
  "Array_from f = Flow_iterate f"

definition Flow_sort ::
  "(int \<Rightarrow> string) \<Rightarrow> (jsval \<Rightarrow> jsval \<Rightarrow> int) option \<Rightarrow> flow \<Rightarrow> flow" where
  "Flow_sort host comparator f = Flow_of [JArr (Array_sort host comparator (Array_from f))]"

definition Flow_sortBy ::
  "(int \<Rightarrow> string) \<Rightarrow> (jsval \<Rightarrow> 'u) \<Rightarrow> ('u \<Rightarrow> 'u \<Rightarrow> int) \<Rightarrow> flow \<Rightarrow> flow" where
  "Flow_sortBy host extractor comparator f =
     Flow_of [JArr (Array_sort host (Some (\<lambda>x y. comparator (extractor x) (extractor y)))
                      (Array_from f))]"

text \<open>
  A consistent comparator on a set of values, as ECMA-262 defines it: comparing equal
  is reflexive, symmetric and transitive, and comparing less and comparing greater
  are transitive.
\<close>

definition consistent_comparator :: "'a set \<Rightarrow> ('a \<Rightarrow> 'a \<Rightarrow> int) \<Rightarrow> bool" where
  "consistent_comparator S c \<longleftrightarrow>
     (\<forall>a\<in>S. c a a = 0) \<and>
     (\<forall>a\<in>S. \<forall>b\<in>S. c a b = 0 \<longrightarrow> c b a = 0) \<and>
     (\<forall>a\<in>S. \<forall>b\<in>S. \<forall>d\<in>S. c a b = 0 \<and> c b d = 0 \<longrightarrow> c a d = 0) \<and>
     (\<forall>a\<in>S. \<forall>b\<in>S. \<forall>d\<in>S. c a b < 0 \<and> c b d < 0 \<longrightarrow> c a d < 0) \<and>
     (\<forall>a\<in>S. \<forall>b\<in>S. \<forall>d\<in>S. c a b > 0 \<and> c b d > 0 \<longrightarrow> c a d > 0)"

text \<open>The values of an array that are not \<^verbatim>\<open>undefined\<close>, and those that are.\<close>

definition defined_values :: "jsval list \<Rightarrow> jsval list" where
  "defined_values xs = filter (\<lambda>v. v \<noteq> JUndefined) xs"

definition undefined_values :: "jsval list \<Rightarrow> jsval list" where
  "undefined_values xs = filter (\<lambda>v. v = JUndefined) xs"

text \<open>
  A comparator and an extractor for the examples: arrays \<^verbatim>\<open>[n, tag]\<close> compared by their
  first element only, \<^verbatim>\<open>(a, b) => a - b\<close> on numbers, and a flow of three tagged
  arrays and an \<^verbatim>\<open>undefined\<close>.
\<close>

definition first_number :: "jsval \<Rightarrow> int" where
  "first_number v = (case v of JArr (JNum n # rest) \<Rightarrow> n | _ \<Rightarrow> 0)"

definition by_first_number :: "jsval \<Rightarrow> jsval \<Rightarrow> int" where
  "by_first_number x y = first_number x - first_number y"

definition difference :: "int \<Rightarrow> int \<Rightarrow> int" where
  "difference a b = a - b"

definition tagged :: "flow" where
  "tagged = Flow_of [JArr [JNum 2, JStr ''a''], JArr [JNum 1, JStr ''b''], JUndefined,
                     JArr [JNum 2, JStr ''c'']]"

section \<open>Properties\<close>

lemma Flow_of_iterable:
  "hasIterator v \<Longrightarrow> Flow_of [v] = \<lparr>iterators = [iterator v]\<rparr>"
  by (subst Flow_of.simps) (simp add: arg0_def)

lemma Flow_of_unfold:
  "Flow_of args =
     (if drop 1 args = [] \<and> hasIterator (arg0 args)
      then \<lparr>iterators = [iterator (arg0 args)]\<rparr>
      else \<lparr>iterators = [arg0 args # drop 1 args]\<rparr>)"
  by (subst Flow_of.simps) (simp add: Let_def Flow_of_iterable)

lemma indexed_from_zip: "indexed_from i xs = zip xs [i..<i + length xs]"
  by (induction xs arbitrary: i) (simp_all add: upt_conv_Cons del: upt_Suc)

subsection \<open>Item\<close>

text \<open>
  C3, as the specification states it: \<^verbatim>\<open>get()\<close> on an empty Item fails with
  EmptyValueError. It does not: on the Item made by \<^verbatim>\<open>Item.empty()\<close> it returns
  \<^verbatim>\<open>undefined\<close>.
\<close>

theorem Item_get_EmptyValueError_counterexample:
  "Item_isEmpty Item_empty \<and> Item_get Item_empty = Inr JUndefined \<and>
   Item_get Item_empty \<noteq> Inl EmptyValueError"
  by (simp add: Item_isEmpty_def Item_empty_def Item_get_def looseNull_def)

text \<open>
  C3, amended: \<^verbatim>\<open>get()\<close> never fails. It returns the stored value: the contained value
  of a present Item, and the stored \<^verbatim>\<open>undefined\<close> or \<^verbatim>\<open>null\<close> of an empty one.
\<close>

theorem Item_get_never_fails:
  "Item_get i = Inr (item_value i) \<and> Item_get (Item_of v) = Inr v \<and>
   Item_get Item_empty = Inr JUndefined \<and> Item_get (Item_of JNull) = Inr JNull"
  by (simp add: Item_get_def Item_of_def Item_empty_def)

text \<open>
  C9: \<^verbatim>\<open>Item.of(null)\<close> and \<^verbatim>\<open>Item.of(undefined)\<close> are empty and not present, as
  \<^verbatim>\<open>Item.empty()\<close> is; an Item made by \<^verbatim>\<open>of\<close> is present exactly when its value is
  neither \<^verbatim>\<open>null\<close> nor \<^verbatim>\<open>undefined\<close>, and presence is the negation of emptiness.
\<close>

theorem Item_nullish_is_empty:
  "Item_isEmpty (Item_of JNull) \<and> Item_isEmpty (Item_of JUndefined) \<and> Item_isEmpty Item_empty \<and>
   \<not> Item_isPresent (Item_of JNull) \<and> \<not> Item_isPresent (Item_of JUndefined) \<and>
   \<not> Item_isPresent Item_empty \<and>
   Item_isPresent (Item_of v) = (v \<noteq> JNull \<and> v \<noteq> JUndefined) \<and>
   Item_isPresent i = (\<not> Item_isEmpty i)"
  by (simp add: Item_isEmpty_def Item_isPresent_def Item_of_def Item_empty_def looseNull_def)

text \<open>
  C6, at the failing inputs: an Item holding the array \<^verbatim>\<open>[1, 2]\<close> is present, yet its
  flow has two elements and \<^verbatim>\<open>findFirst().get()\<close> gives \<^verbatim>\<open>1\<close>, not the array; an Item
  holding the string \<^verbatim>\<open>"ab"\<close> gives \<^verbatim>\<open>"a"\<close>; one holding the empty array gives
  \<^verbatim>\<open>undefined\<close>. A value that is not iterable, such as \<^verbatim>\<open>7\<close>, comes back as it went in,
  and the flow of the empty Item counts zero.
\<close>

theorem Item_flow_findFirst_iterable:
  "Item_isPresent (Item_of (JArr [JNum 1, JNum 2])) \<and>
   Item_get (Flow_findFirst (Item_flow (Item_of (JArr [JNum 1, JNum 2])))) = Inr (JNum 1) \<and>
   Flow_count (Item_flow (Item_of (JArr [JNum 1, JNum 2]))) = 2 \<and>
   Item_get (Flow_findFirst (Item_flow (Item_of (JStr ''ab'')))) = Inr (JStr ''a'') \<and>
   Item_get (Flow_findFirst (Item_flow (Item_of (JArr [])))) = Inr JUndefined \<and>
   Item_get (Flow_findFirst (Item_flow (Item_of (JNum 7)))) = Inr (JNum 7) \<and>
   Flow_count (Item_flow Item_empty) = 0"
  by (simp add: Item_isPresent_def Item_isEmpty_def Item_of_def Item_empty_def looseNull_def
      Item_get_def Flow_findFirst_def Flow_findFirst_run_def Item_flow_def Flow_of_unfold
      Flow_count_def Flow_iterate_def Flow_empty_def arg0_def)

text \<open>Where the round trip does hold: a present value that is not iterable.\<close>

lemma Item_flow_roundtrip_not_iterable:
  "\<not> hasIterator v \<Longrightarrow> Item_isPresent (Item_of v) \<Longrightarrow>
   Item_get (Flow_findFirst (Item_flow (Item_of v))) = Inr v \<and>
   Flow_count (Item_flow (Item_of v)) = 1"
  by (simp add: Item_isPresent_def Item_of_def Item_get_def Flow_findFirst_def
      Flow_findFirst_run_def Item_flow_def Flow_of_unfold Flow_count_def Flow_iterate_def
      arg0_def)

subsection \<open>Flow: composition and short-circuiting\<close>

text \<open>
  C7: \<^verbatim>\<open>of(1,2).append(3,4).prepend(0)\<close> drains to \<^verbatim>\<open>[0,1,2,3,4]\<close>, and so does
  \<^verbatim>\<open>of(1,2).prepend(0).append(3,4)\<close>. In general \<^verbatim>\<open>append\<close> puts the source that \<^verbatim>\<open>of\<close>
  would build from the same arguments after the receiver's sources, and \<^verbatim>\<open>prepend\<close>
  puts it before them, so the drain of the result is the receiver's drain followed,
  respectively preceded, by the new elements.
\<close>

theorem Flow_append_prepend_order:
  "Flow_toArray (Flow_prepend [JNum 0] (Flow_append [JNum 3, JNum 4] (Flow_of [JNum 1, JNum 2])))
     = [JNum 0, JNum 1, JNum 2, JNum 3, JNum 4] \<and>
   Flow_toArray (Flow_append [JNum 3, JNum 4] (Flow_prepend [JNum 0] (Flow_of [JNum 1, JNum 2])))
     = [JNum 0, JNum 1, JNum 2, JNum 3, JNum 4] \<and>
   iterators (Flow_append args f) = iterators f @ iterators (Flow_of args) \<and>
   iterators (Flow_prepend args f) = iterators (Flow_of args) @ iterators f \<and>
   Flow_toArray (Flow_append args f) = Flow_toArray f @ Flow_toArray (Flow_of args) \<and>
   Flow_toArray (Flow_prepend args f) = Flow_toArray (Flow_of args) @ Flow_toArray f"
  by (simp add: Flow_toArray_def Flow_iterate_def Flow_append_def Flow_prepend_def
      Flow_of_unfold arg0_def Let_def)

lemma Flow_some_run_eq:
  "fst (Flow_some_run p i its) =
     (dropWhile (\<lambda>(v, k). \<not> p v k) (indexed_from i (concat its)) \<noteq> []) \<and>
   fst (snd (Flow_some_run p i its)) =
     takeWhile (\<lambda>(v, k). \<not> p v k) (indexed_from i (concat its)) @
     take 1 (dropWhile (\<lambda>(v, k). \<not> p v k) (indexed_from i (concat its)))"
  by (induction p i its rule: Flow_some_run.induct) (simp_all add: case_prod_beta)

lemma Flow_every_run_eq:
  "fst (Flow_every_run p i its) =
     (dropWhile (\<lambda>(v, k). p v k) (indexed_from i (concat its)) = []) \<and>
   fst (snd (Flow_every_run p i its)) =
     takeWhile (\<lambda>(v, k). p v k) (indexed_from i (concat its)) @
     take 1 (dropWhile (\<lambda>(v, k). p v k) (indexed_from i (concat its)))"
  by (induction p i its rule: Flow_every_run.induct) (simp_all add: case_prod_beta)

lemma Flow_some_run_pulled_calls:
  "snd (snd (Flow_some_run p i its)) = map fst (fst (snd (Flow_some_run p i its)))"
  by (induction p i its rule: Flow_some_run.induct) (simp_all add: case_prod_beta)

lemma Flow_some_run_calls_prefix:
  "length (fst (snd (Flow_some_run p i its))) = n \<Longrightarrow>
   map fst (fst (snd (Flow_some_run p i its))) = take n (concat its)"
  by (induction p i its arbitrary: n rule: Flow_some_run.induct)
     (auto simp: case_prod_beta split: if_splits)

lemma Flow_some_run_pulled:
  "snd (snd (Flow_some_run p i its)) = map fst (fst (snd (Flow_some_run p i its))) \<and>
   snd (snd (Flow_some_run p i its)) =
     take (length (fst (snd (Flow_some_run p i its)))) (concat its)"
  using Flow_some_run_calls_prefix [of p i its, OF refl]
  by (simp add: Flow_some_run_pulled_calls)

lemma Flow_every_run_pulled_calls:
  "snd (snd (Flow_every_run p i its)) = map fst (fst (snd (Flow_every_run p i its)))"
  by (induction p i its rule: Flow_every_run.induct) (simp_all add: case_prod_beta)

lemma Flow_every_run_calls_prefix:
  "length (fst (snd (Flow_every_run p i its))) = n \<Longrightarrow>
   map fst (fst (snd (Flow_every_run p i its))) = take n (concat its)"
  by (induction p i its arbitrary: n rule: Flow_every_run.induct)
     (auto simp: case_prod_beta split: if_splits)

lemma Flow_every_run_pulled:
  "snd (snd (Flow_every_run p i its)) = map fst (fst (snd (Flow_every_run p i its))) \<and>
   snd (snd (Flow_every_run p i its)) =
     take (length (fst (snd (Flow_every_run p i its)))) (concat its)"
  using Flow_every_run_calls_prefix [of p i its, OF refl]
  by (simp add: Flow_every_run_pulled_calls)

lemma next_value_None: "next_value its = None \<Longrightarrow> concat its = []"
  by (induction its rule: next_value.induct) auto

lemma next_value_Some: "next_value its = Some (v, rest) \<Longrightarrow> concat its = v # concat rest"
  by (induction its rule: next_value.induct) auto

lemma Flow_findFirst_run_eq:
  "Flow_findFirst_pulled f = take 1 (Flow_toArray f) \<and>
   Flow_findFirst f = (case Flow_toArray f of [] \<Rightarrow> Item_empty | v # _ \<Rightarrow> Item_of v)"
  by (auto simp: Flow_toArray_def Flow_iterate_def Flow_findFirst_def Flow_findFirst_pulled_def
      Flow_findFirst_run_def next_value_None next_value_Some split: option.splits)

text \<open>
  C8: with the values a full drain would give paired with their positions, \<^verbatim>\<open>some(p)\<close>
  is true exactly when some pair satisfies \<open>p\<close>, and the calls it makes to \<open>p\<close> are the
  pairs before the first satisfying one followed by that one, and no other;
  \<^verbatim>\<open>every(p)\<close> does the same with the first falsifying pair. The values either call
  pulls from the sources are exactly the values it called \<open>p\<close> on, a prefix of the
  drain: the values after the first satisfying (falsifying) one are never pulled.
  \<^verbatim>\<open>findFirst()\<close> returns the first value of the drain (the empty Item when there is
  none) and pulls that one value and no other, so at most one. On
  \<^verbatim>\<open>of(1,2,3,4).some(x => x > 1)\<close> the result is true, \<open>p\<close> was called on \<^verbatim>\<open>1\<close> and \<^verbatim>\<open>2\<close>
  only, and \<^verbatim>\<open>3\<close> and \<^verbatim>\<open>4\<close> were not pulled.
\<close>

theorem Flow_short_circuit:
  "Flow_some p f = (dropWhile (\<lambda>(v, k). \<not> p v k) (indexed_from 0 (Flow_toArray f)) \<noteq> []) \<and>
   Flow_some_calls p f =
     takeWhile (\<lambda>(v, k). \<not> p v k) (indexed_from 0 (Flow_toArray f)) @
     take 1 (dropWhile (\<lambda>(v, k). \<not> p v k) (indexed_from 0 (Flow_toArray f))) \<and>
   Flow_every p f = (dropWhile (\<lambda>(v, k). p v k) (indexed_from 0 (Flow_toArray f)) = []) \<and>
   Flow_every_calls p f =
     takeWhile (\<lambda>(v, k). p v k) (indexed_from 0 (Flow_toArray f)) @
     take 1 (dropWhile (\<lambda>(v, k). p v k) (indexed_from 0 (Flow_toArray f))) \<and>
   Flow_some_pulled p f = map fst (Flow_some_calls p f) \<and>
   Flow_some_pulled p f = take (length (Flow_some_calls p f)) (Flow_toArray f) \<and>
   Flow_every_pulled p f = map fst (Flow_every_calls p f) \<and>
   Flow_every_pulled p f = take (length (Flow_every_calls p f)) (Flow_toArray f) \<and>
   Flow_findFirst_pulled f = take 1 (Flow_toArray f) \<and>
   length (Flow_findFirst_pulled f) \<le> 1 \<and>
   Flow_findFirst f = (case Flow_toArray f of [] \<Rightarrow> Item_empty | v # _ \<Rightarrow> Item_of v) \<and>
   Flow_some greater_than_one (Flow_of [JNum 1, JNum 2, JNum 3, JNum 4]) \<and>
   Flow_some_calls greater_than_one (Flow_of [JNum 1, JNum 2, JNum 3, JNum 4])
     = [(JNum 1, 0), (JNum 2, 1)] \<and>
   Flow_some_pulled greater_than_one (Flow_of [JNum 1, JNum 2, JNum 3, JNum 4])
     = [JNum 1, JNum 2]"
proof -
  have calls: "Flow_some p f = (dropWhile (\<lambda>(v, k). \<not> p v k) (indexed_from 0 (Flow_toArray f)) \<noteq> [])"
    "Flow_some_calls p f =
       takeWhile (\<lambda>(v, k). \<not> p v k) (indexed_from 0 (Flow_toArray f)) @
       take 1 (dropWhile (\<lambda>(v, k). \<not> p v k) (indexed_from 0 (Flow_toArray f)))"
    "Flow_every p f = (dropWhile (\<lambda>(v, k). p v k) (indexed_from 0 (Flow_toArray f)) = [])"
    "Flow_every_calls p f =
       takeWhile (\<lambda>(v, k). p v k) (indexed_from 0 (Flow_toArray f)) @
       take 1 (dropWhile (\<lambda>(v, k). p v k) (indexed_from 0 (Flow_toArray f)))"
    using Flow_some_run_eq [of p 0 "iterators f"] Flow_every_run_eq [of p 0 "iterators f"]
    by (simp_all add: Flow_some_def Flow_some_calls_def Flow_every_def Flow_every_calls_def
        Flow_toArray_def Flow_iterate_def)
  have pulled: "Flow_some_pulled p f = map fst (Flow_some_calls p f)"
    "Flow_some_pulled p f = take (length (Flow_some_calls p f)) (Flow_toArray f)"
    "Flow_every_pulled p f = map fst (Flow_every_calls p f)"
    "Flow_every_pulled p f = take (length (Flow_every_calls p f)) (Flow_toArray f)"
    using Flow_some_run_pulled [of p 0 "iterators f"] Flow_every_run_pulled [of p 0 "iterators f"]
    unfolding Flow_some_pulled_def Flow_some_calls_def Flow_every_pulled_def
      Flow_every_calls_def Flow_toArray_def Flow_iterate_def
    by blast+
  have first: "Flow_findFirst_pulled f = take 1 (Flow_toArray f)"
    "length (Flow_findFirst_pulled f) \<le> 1"
    "Flow_findFirst f = (case Flow_toArray f of [] \<Rightarrow> Item_empty | v # _ \<Rightarrow> Item_of v)"
    using Flow_findFirst_run_eq [of f] by simp_all
  have example: "Flow_some greater_than_one (Flow_of [JNum 1, JNum 2, JNum 3, JNum 4])"
    "Flow_some_calls greater_than_one (Flow_of [JNum 1, JNum 2, JNum 3, JNum 4])
       = [(JNum 1, 0), (JNum 2, 1)]"
    "Flow_some_pulled greater_than_one (Flow_of [JNum 1, JNum 2, JNum 3, JNum 4])
       = [JNum 1, JNum 2]"
    by (simp_all add: Flow_some_def Flow_some_calls_def Flow_some_pulled_def Flow_of_unfold
        arg0_def greater_than_one_def)
  from calls pulled first example show ?thesis by (intro conjI)
qed

subsection \<open>EntryFlow\<close>

lemma EntryFlow_iterate_of_iterator:
  "EntryFlow_iterate (EntryFlow_of (PairIterator es)) = es"
  by (simp add: EntryFlow_iterate_def EntryFlow_of_def)








text \<open>
  C2, at the failing inputs: \<^verbatim>\<open>append\<close> puts the new source before the receiver's
  sources, for a \<^verbatim>\<open>Map\<close> and for a plain record alike, so the appended pairs come
  first; \<^verbatim>\<open>prepend\<close> of a plain record puts it after them, so the prepended pairs come
  last. Only \<^verbatim>\<open>prepend\<close> of an iterator or a \<^verbatim>\<open>Map\<close> does what its name says.
\<close>

theorem EntryFlow_append_prepend_swapped:
  "EntryFlow_toArray (EntryFlow_append (AssocMap [(''b'', 2::int)]) (EntryFlow_of (AssocMap [(''a'', 1)])))
     = [(''b'', 2), (''a'', 1)] \<and>
   EntryFlow_toArray (EntryFlow_append (PlainRecord [(''b'', 2::int)]) (EntryFlow_of (PlainRecord [(''a'', 1)])))
     = [(''b'', 2), (''a'', 1)] \<and>
   EntryFlow_toArray (EntryFlow_prepend (PlainRecord [(''b'', 2::int)]) (EntryFlow_of (PlainRecord [(''a'', 1)])))
     = [(''a'', 1), (''b'', 2)] \<and>
   EntryFlow_toArray (EntryFlow_prepend (AssocMap [(''b'', 2::int)]) (EntryFlow_of (AssocMap [(''a'', 1)])))
     = [(''b'', 2), (''a'', 1)] \<and>
   entry_iterators (EntryFlow_append src ef) = entry_iterators (EntryFlow_of src) @ entry_iterators ef \<and>
   entry_iterators (EntryFlow_prepend src ef) =
     (if entries_hasIterator src then entry_iterators (EntryFlow_of src) @ entry_iterators ef
      else entry_iterators ef @ entry_iterators (EntryFlow_of src))"
  by (simp add: EntryFlow_toArray_def EntryFlow_iterate_def EntryFlow_append_def
      EntryFlow_prepend_def EntryFlow_of_def)

text \<open>
  C5, at the failing inputs: a key that is falsy (\<^verbatim>\<open>0\<close>, the empty string) is taken for
  "no run yet". On \<^verbatim>\<open>[(0,1),(1,2)]\<close> the two runs are merged under the key \<^verbatim>\<open>1\<close>; on
  \<^verbatim>\<open>[(1,1),(0,2)]\<close> the run of key \<^verbatim>\<open>0\<close> is lost; on \<^verbatim>\<open>[("",1)]\<close> nothing is yielded.
  With the truthy keys of the specification's example both \<^verbatim>\<open>collapseKeys\<close> and
  \<^verbatim>\<open>grouping\<close> give what the specification says.
\<close>

theorem EntryFlow_collapseKeys_falsy_key:
  "EntryFlow_toArray (EntryFlow_collapseKeys
      (EntryFlow_of (PairIterator [(JNum 0, 1::int), (JNum 1, 2)])))
     = [(JNum 1, [1, 2])] \<and>
   EntryFlow_toArray (EntryFlow_collapseKeys
      (EntryFlow_of (PairIterator [(JNum 1, 1::int), (JNum 0, 2)])))
     = [(JNum 1, [1])] \<and>
   EntryFlow_toArray (EntryFlow_collapseKeys
      (EntryFlow_of (PairIterator [(JStr [], 1::int)])))
     = [] \<and>
   EntryFlow_toArray (EntryFlow_collapseKeys
      (EntryFlow_of (PairIterator
        [(JStr ''a'', 1::int), (JStr ''a'', 2), (JStr ''b'', 3), (JStr ''a'', 4)])))
     = [(JStr ''a'', [1, 2]), (JStr ''b'', [3]), (JStr ''a'', [4])] \<and>
   EntryFlow_toArray (EntryFlow_grouping
      (EntryFlow_of (PairIterator
        [(JStr ''a'', 1::int), (JStr ''a'', 2), (JStr ''b'', 3), (JStr ''a'', 4)])))
     = [(JStr ''a'', [1, 2, 4]), (JStr ''b'', [3])]"
  by (simp add: EntryFlow_toArray_def EntryFlow_iterate_of_iterator EntryFlow_collapseKeys_def
      EntryFlow_grouping_def Map_has_def Map_set_def Map_push_def)

text \<open>
  On primitive keys, and apart from the falsy ones, the two operations are what the
  specification describes: \<^verbatim>\<open>collapseKeys\<close> yields the maximal runs whenever every key is
  primitive and truthy, and \<^verbatim>\<open>grouping\<close> yields the groups by key whenever every key is
  primitive.
\<close>

lemma collapseKeys_loop_runs:
  "primitive ck \<Longrightarrow> list_all (\<lambda>e. primitive (fst e)) xs \<Longrightarrow>
   truthy ck \<Longrightarrow> list_all (\<lambda>e. truthy (fst e)) xs \<Longrightarrow>
   collapseKeys_loop ck cvs xs =
     (ck, cvs @ map snd (takeWhile (\<lambda>e. fst e = ck) xs)) #
     maximal_runs (dropWhile (\<lambda>e. fst e = ck) xs)"
proof (induction xs arbitrary: ck cvs)
  case Nil
  then show ?case by simp
next
  case (Cons e rest)
  obtain k v where e: "e = (k, v)" by (cases e)
  from Cons.prems e have k: "truthy k" and rest: "list_all (\<lambda>e. truthy (fst e)) rest"
    and pk: "primitive k" and prest: "list_all (\<lambda>e. primitive (fst e)) rest"
    by simp_all
  show ?case
  proof (cases "ck = k")
    case True
    with Cons.IH [OF pk prest k rest, of "cvs @ [v]"] Cons.prems e show ?thesis by simp
  next
    case False
    with Cons.IH [OF pk prest k rest, of "[v]"] Cons.prems e show ?thesis by auto
  qed
qed

lemma EntryFlow_collapseKeys_truthy:
  assumes "list_all (\<lambda>e. truthy (fst e)) (EntryFlow_toArray ef)"
    and "list_all (\<lambda>e. primitive (fst e)) (EntryFlow_toArray ef)"
  shows "EntryFlow_toArray (EntryFlow_collapseKeys ef) = maximal_runs (EntryFlow_toArray ef)"
proof (cases "EntryFlow_iterate ef")
  case Nil
  then show ?thesis
    by (simp add: EntryFlow_toArray_def EntryFlow_collapseKeys_def EntryFlow_iterate_of_iterator)
next
  case (Cons e rest)
  obtain k v where e: "e = (k, v)" by (cases e)
  from assms Cons e have k: "truthy k" and rest: "list_all (\<lambda>e. truthy (fst e)) rest"
    and pk: "primitive k" and prest: "list_all (\<lambda>e. primitive (fst e)) rest"
    by (simp_all add: EntryFlow_toArray_def)
  from collapseKeys_loop_runs [OF pk prest k rest, of "[v]"] Cons e show ?thesis
    by (simp add: EntryFlow_toArray_def EntryFlow_collapseKeys_def EntryFlow_iterate_of_iterator)
qed

text \<open>The loop of \<^verbatim>\<open>grouping\<close>, for a key type compared by value.\<close>

lemma set_first_seen: "set (first_seen ks) = set ks"
  by (induction ks rule: first_seen.induct) auto

lemma Map_push_known:
  "map (\<lambda>(k', vs). (k', vs @ values_of k' rest)) (Map_push m k v) =
   map (\<lambda>(k', vs). (k', vs @ values_of k' ((k, v) # rest))) m"
  by (induction m) (auto simp: Map_push_def values_of_def)

lemma Map_push_fresh: "\<not> Map_has m k \<Longrightarrow> Map_push m k v = m"
  by (induction m) (auto simp: Map_push_def Map_has_def)

lemma Map_has_push: "Map_has (Map_push m k v) k' = Map_has m k'"
  by (induction m) (auto simp: Map_push_def Map_has_def)

lemma values_of_other: "k' \<noteq> k \<Longrightarrow> values_of k' ((k, v) # rest) = values_of k' rest"
  by (simp add: values_of_def)

lemma grouping_loop_groups_by_key:
  "grouping_loop m xs =
     map (\<lambda>(k, vs). (k, vs @ values_of k xs)) m @
     map (\<lambda>k. (k, values_of k xs)) (first_seen (filter (\<lambda>k. \<not> Map_has m k) (map fst xs)))"
proof (induction xs arbitrary: m)
  case Nil
  then show ?case by (simp add: values_of_def case_prod_beta)
next
  case (Cons e rest)
  obtain k v where e: "e = (k, v)" by (cases e)
  show ?case
  proof (cases "Map_has m k")
    case True
    have ne: "k' \<noteq> k" if "\<not> Map_has m k'" for k'
      using True that by auto
    have same: "map (\<lambda>k'. (k', values_of k' ((k, v) # rest)))
          (first_seen (filter (\<lambda>k. \<not> Map_has m k) (map fst rest))) =
        map (\<lambda>k'. (k', values_of k' rest))
          (first_seen (filter (\<lambda>k. \<not> Map_has m k) (map fst rest)))"
      by (intro map_cong refl) (auto simp: set_first_seen values_of_other ne)
    from True show ?thesis
      by (simp add: e Cons.IH Map_push_known Map_has_push same)
  next
    case False
    let ?m' = "m @ [(k, [v])]"
    have m': "Map_push (Map_set m k []) k v = ?m'"
      using False by (simp add: Map_set_def Map_push_def Map_push_fresh [unfolded Map_push_def])
    have has: "Map_has ?m' k' = (Map_has m k' \<or> k' = k)" for k'
      by (auto simp: Map_has_def)
    have old: "map (\<lambda>(k', vs). (k', vs @ values_of k' rest)) m =
        map (\<lambda>(k', vs). (k', vs @ values_of k' ((k, v) # rest))) m"
      using False by (intro map_cong refl) (force simp: Map_has_def values_of_def)
    have filter_eq: "filter (\<lambda>k'. \<not> Map_has ?m' k') (map fst rest) =
        filter (\<lambda>x. x \<noteq> k) (filter (\<lambda>k'. \<not> Map_has m k') (map fst rest))"
      by (simp add: has conj_commute)
    have new: "map (\<lambda>k'. (k', values_of k' rest))
          (first_seen (filter (\<lambda>x. x \<noteq> k) (filter (\<lambda>k'. \<not> Map_has m k') (map fst rest)))) =
        map (\<lambda>k'. (k', values_of k' ((k, v) # rest)))
          (first_seen (filter (\<lambda>x. x \<noteq> k) (filter (\<lambda>k'. \<not> Map_has m k') (map fst rest))))"
      by (intro map_cong refl) (auto simp: set_first_seen values_of_other)
    have "grouping_loop m (e # rest) = grouping_loop ?m' rest"
      using False by (simp add: e m')
    also have "\<dots> = map (\<lambda>(k', vs). (k', vs @ values_of k' rest)) ?m' @
        map (\<lambda>k'. (k', values_of k' rest))
          (first_seen (filter (\<lambda>k'. \<not> Map_has ?m' k') (map fst rest)))"
      by (rule Cons.IH)
    also have "\<dots> = map (\<lambda>(k', vs). (k', vs @ values_of k' (e # rest))) m @
        map (\<lambda>k'. (k', values_of k' (e # rest)))
          (first_seen (filter (\<lambda>k'. \<not> Map_has m k') (map fst (e # rest))))"
      using False by (simp add: e old filter_eq new) (auto simp: values_of_def set_first_seen)
    finally show ?thesis .
  qed
qed

lemma EntryFlow_grouping_groups_by_key:
  fixes ef :: "(jsval, 'v) entryflow"
  assumes "list_all (\<lambda>e. primitive (fst e)) (EntryFlow_toArray ef)"
  shows "EntryFlow_toArray (EntryFlow_grouping ef) = groups_by_key (EntryFlow_toArray ef)"
  by (simp add: EntryFlow_toArray_def EntryFlow_grouping_def EntryFlow_iterate_of_iterator
      grouping_loop_groups_by_key groups_by_key_def Map_has_def)

subsection \<open>PromiseFlow\<close>

lemma PromiseFlow_of_unfold:
  "PromiseFlow_of args =
     (if hasAsyncIterator (arg0 args) then \<lparr>promise_iterators = [asyncIterator (arg0 args)]\<rparr>
      else if drop 1 args = [] \<and> hasIterator (arg0 args)
      then \<lparr>promise_iterators = [iterator (arg0 args)]\<rparr>
      else \<lparr>promise_iterators = [arg0 args # drop 1 args]\<rparr>)"
proof -
  have one: "PromiseFlow_of [JArr xs] = \<lparr>promise_iterators = [xs]\<rparr>" for xs
    by (subst PromiseFlow_of.simps) (simp add: arg0_def)
  show ?thesis
    by (subst PromiseFlow_of.simps) (simp add: Let_def one)
qed

text \<open>
  C1, at the failing inputs: \<^verbatim>\<open>PromiseFlow.of(p1, p2).append(p3)\<close> drains to \<^verbatim>\<open>[3,1,2]\<close>
  where \<^verbatim>\<open>Flow.of(1,2).append(3)\<close> drains to \<^verbatim>\<open>[1,2,3]\<close>, and
  \<^verbatim>\<open>PromiseFlow.of(p1, p2).prepend(p0)\<close> drains to \<^verbatim>\<open>[1,2,0]\<close> where
  \<^verbatim>\<open>Flow.of(1,2).prepend(0)\<close> drains to \<^verbatim>\<open>[0,1,2]\<close>: in every branch \<^verbatim>\<open>append\<close> puts the
  new source first and \<^verbatim>\<open>prepend\<close> puts it last.
\<close>

theorem PromiseFlow_append_prepend_swapped:
  "PromiseFlow_toArray (PromiseFlow_append [JPromise (JNum 3)]
      (PromiseFlow_of [JPromise (JNum 1), JPromise (JNum 2)]))
     = Inr [JNum 3, JNum 1, JNum 2] \<and>
   Flow_toArray (Flow_append [JNum 3] (Flow_of [JNum 1, JNum 2]))
     = [JNum 1, JNum 2, JNum 3] \<and>
   PromiseFlow_toArray (PromiseFlow_prepend [JPromise (JNum 0)]
      (PromiseFlow_of [JPromise (JNum 1), JPromise (JNum 2)]))
     = Inr [JNum 1, JNum 2, JNum 0] \<and>
   Flow_toArray (Flow_prepend [JNum 0] (Flow_of [JNum 1, JNum 2]))
     = [JNum 0, JNum 1, JNum 2] \<and>
   promise_iterators (PromiseFlow_append args pf)
     = promise_iterators (PromiseFlow_of args) @ promise_iterators pf \<and>
   promise_iterators (PromiseFlow_prepend args pf)
     = promise_iterators pf @ promise_iterators (PromiseFlow_of args)"
  by (simp add: PromiseFlow_toArray_def PromiseFlow_iterate_def PromiseFlow_append_def
      PromiseFlow_prepend_def PromiseFlow_of_unfold Flow_toArray_def Flow_iterate_def
      Flow_append_def Flow_prepend_def Flow_of_unfold arg0_def Let_def)

subsection \<open>Sorting\<close>

lemma cc_refl: "consistent_comparator S c \<Longrightarrow> a \<in> S \<Longrightarrow> c a a = 0"
  unfolding consistent_comparator_def by blast

lemma cc_sym: "consistent_comparator S c \<Longrightarrow> a \<in> S \<Longrightarrow> b \<in> S \<Longrightarrow> c a b = 0 \<Longrightarrow> c b a = 0"
  unfolding consistent_comparator_def by blast

lemma cc_trans_eq:
  "consistent_comparator S c \<Longrightarrow> a \<in> S \<Longrightarrow> b \<in> S \<Longrightarrow> d \<in> S \<Longrightarrow>
   c a b = 0 \<Longrightarrow> c b d = 0 \<Longrightarrow> c a d = 0"
  unfolding consistent_comparator_def by blast

lemma cc_trans_lt:
  "consistent_comparator S c \<Longrightarrow> a \<in> S \<Longrightarrow> b \<in> S \<Longrightarrow> d \<in> S \<Longrightarrow>
   c a b < 0 \<Longrightarrow> c b d < 0 \<Longrightarrow> c a d < 0"
  unfolding consistent_comparator_def by blast

lemma cc_trans_gt:
  "consistent_comparator S c \<Longrightarrow> a \<in> S \<Longrightarrow> b \<in> S \<Longrightarrow> d \<in> S \<Longrightarrow>
   c a b > 0 \<Longrightarrow> c b d > 0 \<Longrightarrow> c a d > 0"
  unfolding consistent_comparator_def by blast

lemma cc_gt_lt:
  assumes cc: "consistent_comparator S c" and S: "a \<in> S" "b \<in> S" and gt: "c a b > 0"
  shows "c b a < 0"
proof (rule ccontr)
  assume "\<not> c b a < 0"
  then consider "c b a = 0" | "c b a > 0" by linarith
  then show False
  proof cases
    case 1
    from cc_sym [OF cc S(2) S(1) 1] gt show False by simp
  next
    case 2
    from cc_trans_gt [OF cc S(1) S(2) S(1) gt 2] cc_refl [OF cc S(1)] show False by simp
  qed
qed

lemma cc_lt_gt:
  assumes cc: "consistent_comparator S c" and S: "a \<in> S" "b \<in> S" and lt: "c a b < 0"
  shows "c b a > 0"
proof (rule ccontr)
  assume "\<not> c b a > 0"
  then consider "c b a = 0" | "c b a < 0" by linarith
  then show False
  proof cases
    case 1
    from cc_sym [OF cc S(2) S(1) 1] lt show False by simp
  next
    case 2
    from cc_trans_lt [OF cc S(1) S(2) S(1) lt 2] cc_refl [OF cc S(1)] show False by simp
  qed
qed

lemma cc_total:
  assumes cc: "consistent_comparator S c" and S: "a \<in> S" "b \<in> S" and n: "\<not> c a b \<le> 0"
  shows "c b a \<le> 0"
  using cc_gt_lt [OF cc S] n by simp

lemma cc_trans_le:
  assumes cc: "consistent_comparator S c" and S: "a \<in> S" "b \<in> S" "d \<in> S"
    and ab: "c a b \<le> 0" and bd: "c b d \<le> 0"
  shows "c a d \<le> 0"
proof (rule ccontr)
  assume "\<not> c a d \<le> 0"
  then have ad: "c a d > 0" by simp
  have da: "c d a < 0" by (rule cc_gt_lt [OF cc S(1) S(3) ad])
  consider "c a b < 0" | "c a b = 0" using ab by linarith
  then show False
  proof cases
    case 1
    have "c d b < 0" by (rule cc_trans_lt [OF cc S(3) S(1) S(2) da 1])
    from cc_lt_gt [OF cc S(3) S(2) this] bd show False by simp
  next
    case 2
    consider "c b d < 0" | "c b d = 0" using bd by linarith
    then show False
    proof cases
      case 1
      have "c b a < 0" by (rule cc_trans_lt [OF cc S(2) S(3) S(1) 1 da])
      with cc_sym [OF cc S(1) S(2) 2] show False by simp
    next
      case 2
      from cc_trans_eq [OF cc S(1) S(2) S(3) \<open>c a b = 0\<close> 2] ad show False by simp
    qed
  qed
qed

lemma cc_ties:
  assumes cc: "consistent_comparator S c" and S: "x \<in> S" "y \<in> S" "k \<in> S"
    and xk: "c x k = 0" and yk: "c y k = 0"
  shows "c x y \<le> 0"
  using cc_trans_eq [OF cc S(1) S(3) S(2) xk cc_sym [OF cc S(2) S(3) yk]] by simp

lemma cc_image:
  "consistent_comparator (e ` S) d \<Longrightarrow> consistent_comparator S (\<lambda>x y. d (e x) (e y))"
  unfolding consistent_comparator_def by (simp only: ball_simps)

lemma set_insert_sorted: "set (insert_sorted c x ys) = insert x (set ys)"
  by (induction ys) auto

lemma mset_insert_sorted: "mset (insert_sorted c x ys) = add_mset x (mset ys)"
  by (induction ys) simp_all

lemma mset_sort_with: "mset (sort_with c xs) = mset xs"
  by (induction xs) (simp_all add: sort_with_def mset_insert_sorted)

lemma set_sort_with: "set (sort_with c xs) = set xs"
  using mset_sort_with [of c xs] by (metis set_mset_mset)

lemma sort_with_Cons: "sort_with c (x # xs) = insert_sorted c x (sort_with c xs)"
  by (simp add: sort_with_def)

lemma sorted_insert_sorted:
  assumes cc: "consistent_comparator S c"
  shows "x \<in> S \<Longrightarrow> set ys \<subseteq> S \<Longrightarrow> sorted_wrt (\<lambda>a b. c a b \<le> 0) ys \<Longrightarrow>
         sorted_wrt (\<lambda>a b. c a b \<le> 0) (insert_sorted c x ys)"
proof (induction ys)
  case Nil
  then show ?case by simp
next
  case (Cons y ys)
  show ?case
  proof (cases "c x y \<le> 0")
    case True
    have "c x z \<le> 0" if "z \<in> set ys" for z
    proof -
      from Cons.prems that have "c y z \<le> 0" "y \<in> S" "z \<in> S" by auto
      with cc_trans_le [OF cc \<open>x \<in> S\<close> \<open>y \<in> S\<close> \<open>z \<in> S\<close> True] show ?thesis by simp
    qed
    with True Cons.prems show ?thesis by simp
  next
    case False
    from Cons.prems have yS: "y \<in> S" by simp
    have "c y x \<le> 0" by (rule cc_total [OF cc \<open>x \<in> S\<close> yS False])
    with False Cons show ?thesis by (simp add: set_insert_sorted)
  qed
qed

lemma sorted_sort_with:
  assumes cc: "consistent_comparator S c"
  shows "set xs \<subseteq> S \<Longrightarrow> sorted_wrt (\<lambda>a b. c a b \<le> 0) (sort_with c xs)"
proof (induction xs)
  case Nil
  then show ?case by (simp add: sort_with_def)
next
  case (Cons x xs)
  then show ?case
    by (simp add: sort_with_Cons sorted_insert_sorted [OF cc] set_sort_with)
qed

lemma filter_insert_sorted_neg: "\<not> P x \<Longrightarrow> filter P (insert_sorted c x ys) = filter P ys"
  by (induction ys) simp_all

lemma filter_insert_sorted_pos:
  "P x \<Longrightarrow> (\<And>y. y \<in> set ys \<Longrightarrow> P y \<Longrightarrow> c x y \<le> 0) \<Longrightarrow>
   filter P (insert_sorted c x ys) = x # filter P ys"
  by (induction ys) auto

lemma sort_with_stable:
  "(\<And>x y. x \<in> set xs \<Longrightarrow> y \<in> set xs \<Longrightarrow> P x \<Longrightarrow> P y \<Longrightarrow> c x y \<le> 0) \<Longrightarrow>
   filter P (sort_with c xs) = filter P xs"
proof (induction xs)
  case Nil
  then show ?case by (simp add: sort_with_def)
next
  case (Cons a xs)
  have IH: "filter P (sort_with c xs) = filter P xs"
    by (rule Cons.IH) (simp add: Cons.prems)
  show ?case
  proof (cases "P a")
    case True
    have "filter P (insert_sorted c a (sort_with c xs)) = a # filter P (sort_with c xs)"
      by (rule filter_insert_sorted_pos [where P = P, OF True])
         (simp add: set_sort_with Cons.prems True)
    with True IH show ?thesis by (simp add: sort_with_Cons)
  next
    case False
    with IH show ?thesis by (simp add: sort_with_Cons filter_insert_sorted_neg)
  qed
qed

lemma insert_sorted_cong:
  "(\<And>y. y \<in> set ys \<Longrightarrow> (c x y \<le> 0) = (c' x y \<le> 0)) \<Longrightarrow>
   insert_sorted c x ys = insert_sorted c' x ys"
  by (induction ys) simp_all

lemma sort_with_cong:
  "(\<And>x y. x \<in> set xs \<Longrightarrow> y \<in> set xs \<Longrightarrow> (c x y \<le> 0) = (c' x y \<le> 0)) \<Longrightarrow>
   sort_with c xs = sort_with c' xs"
proof (induction xs)
  case Nil
  then show ?case by (simp add: sort_with_def)
next
  case (Cons a xs)
  have "sort_with c xs = sort_with c' xs" by (rule Cons.IH) (simp add: Cons.prems)
  moreover have "insert_sorted c a (sort_with c' xs) = insert_sorted c' a (sort_with c' xs)"
    by (rule insert_sorted_cong) (simp add: set_sort_with Cons.prems)
  ultimately show ?case by (simp add: sort_with_Cons)
qed

lemma insert_sorted_insort_key:
  "(\<And>y. y \<in> set ys \<Longrightarrow> (c x y \<le> 0) = (k x \<le> k y)) \<Longrightarrow>
   insert_sorted c x ys = insort_key k x ys"
  by (induction ys) simp_all

lemma sort_with_sort_key:
  "(\<And>x y. x \<in> set xs \<Longrightarrow> y \<in> set xs \<Longrightarrow> (c x y \<le> 0) = (k x \<le> k y)) \<Longrightarrow>
   sort_with c xs = sort_key k xs"
proof (induction xs)
  case Nil
  then show ?case by (simp add: sort_with_def)
next
  case (Cons a xs)
  have "sort_with c xs = sort_key k xs" by (rule Cons.IH) (simp add: Cons.prems)
  moreover have "insert_sorted c a (sort_key k xs) = insort_key k a (sort_key k xs)"
    by (rule insert_sorted_insort_key) (simp add: Cons.prems)
  ultimately show ?case by (simp add: sort_with_Cons)
qed

text \<open>\<^verbatim>\<open>undefined\<close> goes last, whatever the comparator.\<close>

lemma insert_sorted_defined:
  "x \<noteq> JUndefined \<Longrightarrow> set us \<subseteq> {JUndefined} \<Longrightarrow>
   insert_sorted (SortCompare host cf) x (ds @ us) = insert_sorted (SortCompare host cf) x ds @ us"
proof (induction ds)
  case Nil
  then show ?case by (cases us) (simp_all add: SortCompare_def)
next
  case (Cons d ds)
  then show ?case by simp
qed

lemma insert_sorted_undefined:
  "JUndefined \<notin> set ds \<Longrightarrow> set us \<subseteq> {JUndefined} \<Longrightarrow>
   insert_sorted (SortCompare host cf) JUndefined (ds @ us) = ds @ JUndefined # us"
proof (induction ds)
  case Nil
  then show ?case by (cases us) (simp_all add: SortCompare_def)
next
  case (Cons d ds)
  then have "d \<noteq> JUndefined" by auto
  then have "\<not> SortCompare host cf JUndefined d \<le> 0" by (simp add: SortCompare_def)
  with Cons show ?case by simp
qed

lemma Array_sort_split:
  "Array_sort host cf xs =
     sort_with (SortCompare host cf) (defined_values xs) @ undefined_values xs"
proof (induction xs)
  case Nil
  then show ?case by (simp add: Array_sort_def sort_with_def defined_values_def undefined_values_def)
next
  case (Cons a xs)
  have U: "set (undefined_values xs) \<subseteq> {JUndefined}"
    by (auto simp: undefined_values_def)
  have D: "JUndefined \<notin> set (sort_with (SortCompare host cf) (defined_values xs))"
    by (simp add: set_sort_with defined_values_def)
  have step: "Array_sort host cf (v # xs) = insert_sorted (SortCompare host cf) v (Array_sort host cf xs)" for v
    by (simp add: Array_sort_def sort_with_Cons)
  show ?case
  proof (cases "a = JUndefined")
    case True
    then have "defined_values (a # xs) = defined_values xs"
      and "undefined_values (a # xs) = JUndefined # undefined_values xs"
      by (simp_all add: defined_values_def undefined_values_def)
    with insert_sorted_undefined [OF D U, of host cf] True show ?thesis
      by (simp add: step Cons.IH)
  next
    case False
    then have "defined_values (a # xs) = a # defined_values xs"
      and "undefined_values (a # xs) = undefined_values xs"
      by (simp_all add: defined_values_def undefined_values_def)
    with insert_sorted_defined [OF False U, of host cf] show ?thesis
      by (simp add: step Cons.IH sort_with_Cons)
  qed
qed

lemma SortCompare_Some_defined:
  "x \<noteq> JUndefined \<Longrightarrow> y \<noteq> JUndefined \<Longrightarrow> SortCompare host (Some c) x y = c x y"
  by (simp add: SortCompare_def)

lemma SortCompare_None_le:
  "x \<noteq> JUndefined \<Longrightarrow> y \<noteq> JUndefined \<Longrightarrow>
   (SortCompare host None x y \<le> 0) = (ToString host x \<le> ToString host y)"
  by (auto simp: SortCompare_def Let_def)

lemma Array_sort_comparator:
  "Array_sort host (Some c) xs = sort_with c (defined_values xs) @ undefined_values xs"
proof -
  have "sort_with (SortCompare host (Some c)) (defined_values xs) = sort_with c (defined_values xs)"
    by (rule sort_with_cong) (simp add: defined_values_def SortCompare_Some_defined)
  then show ?thesis by (simp add: Array_sort_split)
qed

lemma Array_sort_default:
  "Array_sort host None xs = sort_key (ToString host) (defined_values xs) @ undefined_values xs"
proof -
  have "sort_with (SortCompare host None) (defined_values xs) = sort_key (ToString host) (defined_values xs)"
    by (rule sort_with_sort_key) (simp add: defined_values_def SortCompare_None_le)
  then show ?thesis by (simp add: Array_sort_split)
qed

lemma Flow_toArray_sort: "Flow_toArray (Flow_sort host cf f) = Array_sort host cf (Flow_toArray f)"
  by (simp add: Flow_toArray_def Flow_iterate_def Flow_sort_def Array_from_def Flow_of_unfold arg0_def)

lemma Flow_toArray_sortBy:
  "Flow_toArray (Flow_sortBy host e d f) = Array_sort host (Some (\<lambda>x y. d (e x) (e y))) (Flow_toArray f)"
  by (simp add: Flow_toArray_def Flow_iterate_def Flow_sortBy_def Array_from_def Flow_of_unfold arg0_def)

lemma insort_key_map:
  "insort_key k (g x) (map g ys) = map g (insort_key (\<lambda>a. k (g a)) x ys)"
  by (induction ys) simp_all

lemma sort_key_map: "sort_key k (map g xs) = map g (sort_key (\<lambda>a. k (g a)) xs)"
  by (induction xs) (simp_all add: insort_key_map)

lemma insort_key_agree:
  "k x = k' x \<Longrightarrow> (\<And>y. y \<in> set ys \<Longrightarrow> k y = k' y) \<Longrightarrow>
   insort_key k x ys = insort_key k' x ys"
  by (induction ys) simp_all

lemma sort_key_agree:
  "(\<And>x. x \<in> set xs \<Longrightarrow> k x = k' x) \<Longrightarrow> sort_key k xs = sort_key k' xs"
proof (induction xs)
  case Nil
  then show ?case by simp
next
  case (Cons a xs)
  have "sort_key k xs = sort_key k' xs" by (rule Cons.IH) (simp add: Cons.prems)
  moreover have "insort_key k a (sort_key k' xs) = insort_key k' a (sort_key k' xs)"
    by (rule insort_key_agree) (simp_all add: Cons.prems)
  ultimately show ?case by simp
qed

lemma defined_values_numbers:
  "defined_values (map JNum ns) = map JNum ns \<and> undefined_values (map JNum ns) = []"
  by (induction ns) (simp_all add: defined_values_def undefined_values_def)

lemma Flow_toArray_of_array: "Flow_toArray (Flow_of [JArr xs]) = xs"
  by (simp add: Flow_toArray_def Flow_iterate_def Flow_of_unfold arg0_def)

lemma defined_values_append:
  assumes "JUndefined \<notin> set ds" "set us \<subseteq> {JUndefined}"
  shows "defined_values (ds @ us) = ds \<and> undefined_values (ds @ us) = us"
proof -
  have "filter (\<lambda>v. v \<noteq> JUndefined) ds = ds" "filter (\<lambda>v. v = JUndefined) ds = []"
    using assms(1) by (induction ds) auto
  moreover have "filter (\<lambda>v. v \<noteq> JUndefined) us = []" "filter (\<lambda>v. v = JUndefined) us = us"
    using assms(2) by (induction us) auto
  ultimately show ?thesis
    by (simp add: defined_values_def undefined_values_def)
qed

lemma defined_values_Array_sort:
  "defined_values (Array_sort host (Some c) xs) = sort_with c (defined_values xs)"
proof -
  have "JUndefined \<notin> set (sort_with c (defined_values xs))"
    by (simp add: set_sort_with defined_values_def)
  moreover have "set (undefined_values xs) \<subseteq> {JUndefined}"
    by (auto simp: undefined_values_def)
  ultimately show ?thesis
    by (simp add: Array_sort_comparator defined_values_append)
qed

lemma mset_Array_sort: "mset (Array_sort host cf xs) = mset xs"
  by (simp add: Array_sort_def mset_sort_with)

lemma Array_sort_stable:
  assumes cc: "consistent_comparator (set (defined_values xs)) c"
    and k: "k \<in> set (defined_values xs)"
  shows "filter (\<lambda>y. y \<noteq> JUndefined \<and> c y k = 0) (Array_sort host (Some c) xs) =
         filter (\<lambda>y. y \<noteq> JUndefined \<and> c y k = 0) xs"
proof -
  let ?P = "\<lambda>y. y \<noteq> JUndefined \<and> c y k = 0"
  have und: "filter ?P (undefined_values xs) = []"
    by (simp add: undefined_values_def filter_empty_conv)
  have "filter ?P (sort_with c (defined_values xs)) = filter ?P (defined_values xs)"
  proof (rule sort_with_stable)
    fix x y
    assume "x \<in> set (defined_values xs)" "y \<in> set (defined_values xs)" "?P x" "?P y"
    then show "c x y \<le> 0"
      using cc_ties [OF cc _ _ k] by blast
  qed
  also have "\<dots> = filter ?P xs"
    by (simp add: defined_values_def conj_commute)
  finally show ?thesis
    by (simp add: Array_sort_comparator und)
qed

text \<open>
  C4, as the specification states it: \<^verbatim>\<open>sort()\<close> with no comparator puts every sequence
  of numbers in numerically ascending order. It does not: \<^verbatim>\<open>of(10, 9, 1).sort()\<close> drains
  to \<^verbatim>\<open>[1, 10, 9]\<close>, whatever the host's rendering of the numbers beyond the safe
  integers.
\<close>

theorem Flow_sort_natural_order_counterexample:
  "(\<forall>host. Flow_toArray (Flow_sort host None (Flow_of [JNum 10, JNum 9, JNum 1]))
      = [JNum 1, JNum 10, JNum 9]) \<and>
   \<not> sorted [1, 10, 9 :: int]"
proof -
  have "Flow_toArray (Flow_of [JNum 10, JNum 9, JNum 1]) = [JNum 10, JNum 9, JNum 1]"
    by (simp add: Flow_toArray_def Flow_iterate_def Flow_of_unfold arg0_def)
  then show ?thesis
    by (simp add: Flow_toArray_sort Array_sort_def sort_with_def SortCompare_def
        Number_toString_def Number_isSafeInteger_def decimal_def digits.simps Let_def)
qed

text \<open>
  C4, amended. \<^verbatim>\<open>sort()\<close> with no comparator yields the values that are not \<^verbatim>\<open>undefined\<close>
  in ascending order of their string renderings, ties in their original order,
  followed by the \<^verbatim>\<open>undefined\<close> ones; a sequence of safe integers (magnitude at most
  \<open>2\<^sup>5\<^sup>3 - 1\<close>) comes out ordered by its decimal renderings. \<^verbatim>\<open>sort(c)\<close> and \<^verbatim>\<open>sortBy(e, d)\<close>, for a comparator that is consistent
  on the values (on the extracted keys) that are not \<^verbatim>\<open>undefined\<close>, yield a permutation
  of the input in which those values come first, ordered by the comparator (their keys
  ordered by \<open>d\<close>), the \<^verbatim>\<open>undefined\<close> ones last, and in which the values that compare
  equal to a value \<open>k\<close> of the input (whose keys compare equal to the key of \<open>k\<close>) keep
  their original relative order.
\<close>

theorem Flow_sort_stable:
  assumes c: "consistent_comparator (set (defined_values (Flow_toArray f))) c"
    and d: "consistent_comparator (e ` set (defined_values (Flow_toArray f))) d"
    and k: "k \<in> set (defined_values (Flow_toArray f))"
  shows
    "Flow_toArray (Flow_sort host None f) =
       sort_key (ToString host) (defined_values (Flow_toArray f)) @ undefined_values (Flow_toArray f) \<and>
     (list_all Number_isSafeInteger ns \<longrightarrow>
      Flow_toArray (Flow_sort host None (Flow_of [JArr (map JNum ns)])) =
        map JNum (sort_key decimal ns)) \<and>
     mset (Flow_toArray (Flow_sort host (Some c) f)) = mset (Flow_toArray f) \<and>
     Flow_toArray (Flow_sort host (Some c) f) =
       defined_values (Flow_toArray (Flow_sort host (Some c) f)) @ undefined_values (Flow_toArray f) \<and>
     sorted_wrt (\<lambda>x y. c x y \<le> 0) (defined_values (Flow_toArray (Flow_sort host (Some c) f))) \<and>
     filter (\<lambda>y. y \<noteq> JUndefined \<and> c y k = 0) (Flow_toArray (Flow_sort host (Some c) f)) =
       filter (\<lambda>y. y \<noteq> JUndefined \<and> c y k = 0) (Flow_toArray f) \<and>
     mset (Flow_toArray (Flow_sortBy host e d f)) = mset (Flow_toArray f) \<and>
     Flow_toArray (Flow_sortBy host e d f) =
       defined_values (Flow_toArray (Flow_sortBy host e d f)) @ undefined_values (Flow_toArray f) \<and>
     sorted_wrt (\<lambda>a b. d a b \<le> 0) (map e (defined_values (Flow_toArray (Flow_sortBy host e d f)))) \<and>
     filter (\<lambda>y. y \<noteq> JUndefined \<and> d (e y) (e k) = 0) (Flow_toArray (Flow_sortBy host e d f)) =
       filter (\<lambda>y. y \<noteq> JUndefined \<and> d (e y) (e k) = 0) (Flow_toArray f)"
proof -
  let ?xs = "Flow_toArray f"
  let ?ce = "\<lambda>x y. d (e x) (e y)"
  have ce: "consistent_comparator (set (defined_values ?xs)) ?ce"
    by (rule cc_image [OF d])
  have 1: "Flow_toArray (Flow_sort host None f) =
       sort_key (ToString host) (defined_values ?xs) @ undefined_values ?xs"
    by (simp add: Flow_toArray_sort Array_sort_default)
  have 2: "list_all Number_isSafeInteger ns \<longrightarrow>
      Flow_toArray (Flow_sort host None (Flow_of [JArr (map JNum ns)])) =
        map JNum (sort_key decimal ns)"
  proof
    assume safe: "list_all Number_isSafeInteger ns"
    have "sort_key (\<lambda>n. Number_toString host n) ns = sort_key decimal ns"
      by (rule sort_key_agree) (use safe in \<open>simp add: list_all_iff Number_toString_def\<close>)
    then show "Flow_toArray (Flow_sort host None (Flow_of [JArr (map JNum ns)])) =
        map JNum (sort_key decimal ns)"
      by (simp add: Flow_toArray_sort Array_sort_default Flow_toArray_of_array
          defined_values_numbers sort_key_map)
  qed
  have 3: "mset (Flow_toArray (Flow_sort host (Some c) f)) = mset ?xs"
    by (simp add: Flow_toArray_sort mset_Array_sort)
  have 4: "Flow_toArray (Flow_sort host (Some c) f) =
       defined_values (Flow_toArray (Flow_sort host (Some c) f)) @ undefined_values ?xs"
    unfolding Flow_toArray_sort defined_values_Array_sort by (rule Array_sort_comparator)
  have 5: "sorted_wrt (\<lambda>x y. c x y \<le> 0) (defined_values (Flow_toArray (Flow_sort host (Some c) f)))"
    by (simp add: Flow_toArray_sort defined_values_Array_sort sorted_sort_with [OF c])
  have 6: "filter (\<lambda>y. y \<noteq> JUndefined \<and> c y k = 0) (Flow_toArray (Flow_sort host (Some c) f)) =
       filter (\<lambda>y. y \<noteq> JUndefined \<and> c y k = 0) ?xs"
    by (simp only: Flow_toArray_sort Array_sort_stable [OF c k])
  have 7: "mset (Flow_toArray (Flow_sortBy host e d f)) = mset ?xs"
    by (simp add: Flow_toArray_sortBy mset_Array_sort)
  have 8: "Flow_toArray (Flow_sortBy host e d f) =
       defined_values (Flow_toArray (Flow_sortBy host e d f)) @ undefined_values ?xs"
    unfolding Flow_toArray_sortBy defined_values_Array_sort by (rule Array_sort_comparator)
  have 9: "sorted_wrt (\<lambda>a b. d a b \<le> 0) (map e (defined_values (Flow_toArray (Flow_sortBy host e d f))))"
    using sorted_sort_with [OF ce, of "defined_values ?xs"]
    by (simp add: Flow_toArray_sortBy defined_values_Array_sort sorted_wrt_map)
  have 10: "filter (\<lambda>y. y \<noteq> JUndefined \<and> d (e y) (e k) = 0) (Flow_toArray (Flow_sortBy host e d f)) =
       filter (\<lambda>y. y \<noteq> JUndefined \<and> d (e y) (e k) = 0) ?xs"
    by (simp only: Flow_toArray_sortBy Array_sort_stable [OF ce k])
  from 1 2 3 4 5 6 7 8 9 10 show ?thesis by blast
qed

text \<open>
  The hypotheses hold of the tagged flow \<^verbatim>\<open>[2,a], [1,b], undefined, [2,c]\<close>, compared by
  first element: the two arrays that tie on \<^verbatim>\<open>2\<close> stay in the order \<^verbatim>\<open>a\<close>, \<^verbatim>\<open>c\<close>. The
  numbers \<^verbatim>\<open>10, 9, 1\<close> are safe integers and sort to \<^verbatim>\<open>1, 10, 9\<close>.
\<close>

theorem Flow_sort_stable_witness:
  "consistent_comparator (set (defined_values (Flow_toArray tagged))) by_first_number \<and>
   consistent_comparator (first_number ` set (defined_values (Flow_toArray tagged))) difference \<and>
   JArr [JNum 2, JStr ''a''] \<in> set (defined_values (Flow_toArray tagged)) \<and>
   filter (\<lambda>y. y \<noteq> JUndefined \<and> by_first_number y (JArr [JNum 2, JStr ''a'']) = 0)
       (Flow_toArray (Flow_sort decimal (Some by_first_number) tagged))
     = [JArr [JNum 2, JStr ''a''], JArr [JNum 2, JStr ''c'']] \<and>
   filter (\<lambda>y. y \<noteq> JUndefined \<and>
              difference (first_number y) (first_number (JArr [JNum 2, JStr ''a''])) = 0)
       (Flow_toArray (Flow_sortBy decimal first_number difference tagged))
     = [JArr [JNum 2, JStr ''a''], JArr [JNum 2, JStr ''c'']] \<and>
   sorted_wrt (\<lambda>a b. difference a b \<le> 0)
     (map first_number (defined_values (Flow_toArray (Flow_sortBy decimal first_number difference tagged)))) \<and>
   list_all Number_isSafeInteger [10, 9, 1] \<and>
   Flow_toArray (Flow_sort decimal None (Flow_of [JArr (map JNum [10, 9, 1])]))
     = [JNum 1, JNum 10, JNum 9]"
proof -
  have xs: "Flow_toArray tagged =
      [JArr [JNum 2, JStr ''a''], JArr [JNum 1, JStr ''b''], JUndefined, JArr [JNum 2, JStr ''c'']]"
    by (simp add: tagged_def Flow_toArray_def Flow_iterate_def Flow_of_unfold arg0_def)
  have dv: "defined_values (Flow_toArray tagged) =
      [JArr [JNum 2, JStr ''a''], JArr [JNum 1, JStr ''b''], JArr [JNum 2, JStr ''c'']]"
    by (simp add: xs defined_values_def)
  have h1: "consistent_comparator (set (defined_values (Flow_toArray tagged))) by_first_number"
    by (simp add: dv consistent_comparator_def by_first_number_def first_number_def)
  have h2: "consistent_comparator (first_number ` set (defined_values (Flow_toArray tagged)))
      difference"
    by (simp add: dv consistent_comparator_def difference_def first_number_def)
  have h3: "JArr [JNum 2, JStr ''a''] \<in> set (defined_values (Flow_toArray tagged))"
    by (simp add: dv)
  have h4: "list_all Number_isSafeInteger [10, 9, 1]"
    by (simp add: Number_isSafeInteger_def)
  have order: "map JNum (sort_key decimal [10, 9, 1]) = [JNum 1, JNum 10, JNum 9]"
    by (simp add: decimal_def digits.simps)
  note T = Flow_sort_stable [OF h1 h2 h3, where host = decimal and ns = "[10, 9, 1]"]
  from T h4 order have numbers:
    "Flow_toArray (Flow_sort decimal None (Flow_of [JArr (map JNum [10, 9, 1])]))
       = [JNum 1, JNum 10, JNum 9]"
    by simp
  from T have ties:
    "filter (\<lambda>y. y \<noteq> JUndefined \<and> by_first_number y (JArr [JNum 2, JStr ''a'']) = 0)
         (Flow_toArray (Flow_sort decimal (Some by_first_number) tagged)) =
       filter (\<lambda>y. y \<noteq> JUndefined \<and> by_first_number y (JArr [JNum 2, JStr ''a'']) = 0)
         (Flow_toArray tagged)"
    "filter (\<lambda>y. y \<noteq> JUndefined \<and>
                difference (first_number y) (first_number (JArr [JNum 2, JStr ''a''])) = 0)
         (Flow_toArray (Flow_sortBy decimal first_number difference tagged)) =
       filter (\<lambda>y. y \<noteq> JUndefined \<and>
                difference (first_number y) (first_number (JArr [JNum 2, JStr ''a''])) = 0)
         (Flow_toArray tagged)"
    "sorted_wrt (\<lambda>a b. difference a b \<le> 0)
       (map first_number
         (defined_values (Flow_toArray (Flow_sortBy decimal first_number difference tagged))))"
    by blast+
  from ties(1,2) have ties':
    "filter (\<lambda>y. y \<noteq> JUndefined \<and> by_first_number y (JArr [JNum 2, JStr ''a'']) = 0)
         (Flow_toArray (Flow_sort decimal (Some by_first_number) tagged))
       = [JArr [JNum 2, JStr ''a''], JArr [JNum 2, JStr ''c'']]"
    "filter (\<lambda>y. y \<noteq> JUndefined \<and>
                difference (first_number y) (first_number (JArr [JNum 2, JStr ''a''])) = 0)
         (Flow_toArray (Flow_sortBy decimal first_number difference tagged))
       = [JArr [JNum 2, JStr ''a''], JArr [JNum 2, JStr ''c'']]"
    by (simp_all add: xs by_first_number_def difference_def first_number_def)
  from h1 h2 h3 ties' ties(3) h4 numbers show ?thesis by (intro conjI)
qed

end
